theory Spec2Isabelle
  imports Complex_Main "HOL-Library.Char_ord" "HOL-Library.List_Lexorder"
    "HOL-Library.Product_Lexorder"
begin

section \<open>Errors\<close>

text \<open>
  The Python exceptions that the modelled functions can let escape. A function that may
  raise returns \<open>py_error + 'a\<close>, with \<open>Inl\<close> for the exception.
\<close>

datatype py_error =
  ZeroDivisionError | TypeError | AttributeError | UnknownTimeZoneError | OverflowError |
  ParserError

section \<open>Pagination: \<open>distribute_items_across_pages\<close>\<close>

text \<open>
  A page is the dictionary \<^verbatim>\<open>{'events': [...], 'tasks': [...]}\<close>. Events are dictionaries
  and tasks are strings in the source; the algorithm never looks inside either, so both
  element types are left polymorphic.
\<close>

record ('e, 't) page =
  events :: "'e list"
  tasks :: "'t list"

definition page_total :: "('e, 't) page \<Rightarrow> int" where
  "page_total p = int (length (events p)) + int (length (tasks p))"

text \<open>
  The two inner loops
  \<^verbatim>\<open>while remaining and items_on_page < target_items:
      page.append(remaining.pop(0)); items_on_page += 1\<close>
  as one recursive function: it returns what is left of \<open>remaining\<close>, the grown page list
  and the new counter.
\<close>

fun fill_page :: "'a list \<Rightarrow> 'a list \<Rightarrow> int \<Rightarrow> int \<Rightarrow> 'a list \<times> 'a list \<times> int" where
  "fill_page [] pg items_on_page target_items = ([], pg, items_on_page)"
| "fill_page (x # remaining) pg items_on_page target_items =
     (if items_on_page < target_items
      then fill_page remaining (pg @ [x]) (items_on_page + 1) target_items
      else (x # remaining, pg, items_on_page))"

text \<open>
  The body of \<^verbatim>\<open>for page_idx, target_items in enumerate(page_targets)\<close>: events first,
  then tasks, then at most one more item when the page is under target, is not the last
  one and is under \<open>max_items\<close>. \<open>num_targets\<close> is \<^verbatim>\<open>len(page_targets)\<close>. The result is
  the page appended to \<open>pages\<close> and the two remaining lists.
\<close>

definition fill_one_page ::
  "int \<Rightarrow> int \<Rightarrow> int \<Rightarrow> int \<Rightarrow> 'e list \<Rightarrow> 't list \<Rightarrow> ('e, 't) page \<times> 'e list \<times> 't list" where
  "fill_one_page max_items num_targets page_idx target_items events_remaining tasks_remaining =
     (case fill_page events_remaining [] 0 target_items of
        (er1, page_events, n1) \<Rightarrow>
     (case fill_page tasks_remaining [] n1 target_items of
        (tr1, page_tasks, n2) \<Rightarrow>
     (if n2 < target_items \<and> page_idx < num_targets - 1 \<and> n2 < max_items then
        (case er1 of
           e # er2 \<Rightarrow> (\<lparr>events = page_events @ [e], tasks = page_tasks\<rparr>, er2, tr1)
         | [] \<Rightarrow>
            (case tr1 of
               t # tr2 \<Rightarrow> (\<lparr>events = page_events, tasks = page_tasks @ [t]\<rparr>, er1, tr2)
             | [] \<Rightarrow> (\<lparr>events = page_events, tasks = page_tasks\<rparr>, er1, tr1)))
      else (\<lparr>events = page_events, tasks = page_tasks\<rparr>, er1, tr1))))"

fun place_pages ::
  "int \<Rightarrow> int \<Rightarrow> int \<Rightarrow> int list \<Rightarrow> 'e list \<Rightarrow> 't list \<Rightarrow> ('e, 't) page list
   \<Rightarrow> ('e, 't) page list \<times> 'e list \<times> 't list" where
  "place_pages max_items num_targets page_idx [] events_remaining tasks_remaining pages =
     (pages, events_remaining, tasks_remaining)"
| "place_pages max_items num_targets page_idx (target_items # rest) events_remaining
     tasks_remaining pages =
     (case fill_one_page max_items num_targets page_idx target_items events_remaining
             tasks_remaining of
        (pg, er, tr) \<Rightarrow>
          place_pages max_items num_targets (page_idx + 1) rest er tr (pages @ [pg]))"

text \<open>
  The leftover block after the loop: items still remaining go to the last page while it is
  under \<open>max_items\<close>, and whatever remains after that becomes a new trailing page.
\<close>

definition place_leftovers ::
  "int \<Rightarrow> ('e, 't) page list \<Rightarrow> 'e list \<Rightarrow> 't list \<Rightarrow> ('e, 't) page list" where
  "place_leftovers max_items pages events_remaining tasks_remaining =
     (if events_remaining \<noteq> [] \<or> tasks_remaining \<noteq> [] then
        (case (if pages \<noteq> [] \<and> page_total (last pages) < max_items then
                 (case fill_page events_remaining (events (last pages))
                         (page_total (last pages)) max_items of
                    (er1, last_events, n1) \<Rightarrow>
                 (case fill_page tasks_remaining (tasks (last pages)) n1 max_items of
                    (tr1, last_tasks, n2) \<Rightarrow>
                   (butlast pages @ [\<lparr>events = last_events, tasks = last_tasks\<rparr>], er1, tr1)))
               else (pages, events_remaining, tasks_remaining)) of
           (pages1, er, tr) \<Rightarrow>
             (if er \<noteq> [] \<or> tr \<noteq> [] then pages1 @ [\<lparr>events = er, tasks = tr\<rparr>]
              else pages1))
      else pages)"

text \<open>
  \<^verbatim>\<open>page_targets\<close>: \<open>target_per_page\<close> everywhere, one more on the first \<open>remainder\<close>
  pages, then raised to \<open>min_target\<close>.
\<close>

definition page_targets :: "int \<Rightarrow> int \<Rightarrow> int list" where
  "page_targets total_items min_pages_needed =
     (let target_per_page = total_items div min_pages_needed;
          remainder = total_items mod min_pages_needed;
          targets = map (\<lambda>i. if i < remainder then target_per_page + 1 else target_per_page)
                      [0..min_pages_needed - 1];
          min_target = (if min_pages_needed > 1 then min 4 (total_items div min_pages_needed)
                        else 0)
      in map (\<lambda>target. max target min_target) targets)"

text \<open>
  The whole function. \<open>max_items\<close> is a Python \<open>int\<close>; \<open>//\<close> and \<open>%\<close> are floor division
  and its remainder, which is what \<open>div\<close> and \<open>mod\<close> are on \<open>int\<close>, and raise
  \<open>ZeroDivisionError\<close> on a zero divisor. The call of
  \<^verbatim>\<open>validate_distribution_balance\<close> only chooses between two log messages: the same
  \<open>pages\<close> are returned on both of its outcomes, so it does not appear here.
\<close>

definition distribute_items_across_pages ::
  "'e list \<Rightarrow> 't list \<Rightarrow> int \<Rightarrow> py_error + ('e, 't) page list" where
  "distribute_items_across_pages evs tks max_items =
     (if int (length evs) + int (length tks) > 1000 then Inr [\<lparr>events = [], tasks = []\<rparr>]
      else if evs = [] \<and> tks = [] then Inr [\<lparr>events = [], tasks = []\<rparr>]
      else
        let total_items = int (length evs) + int (length tks) in
        if total_items \<le> max_items then Inr [\<lparr>events = evs, tasks = tks\<rparr>]
        else if max_items = 0 then Inl ZeroDivisionError
        else
          let min_pages_needed = (total_items + max_items - 1) div max_items in
          if min_pages_needed = 0 then Inl ZeroDivisionError
          else
            let targets = page_targets total_items min_pages_needed in
            (case place_pages max_items (int (length targets)) 0 targets evs tks [] of
               (pages, events_remaining, tasks_remaining) \<Rightarrow>
                 Inr (place_leftovers max_items pages events_remaining tasks_remaining)))"

text \<open>
  The conservation property of the specification, over a returned page list: the event
  counts add up to the number of input events, the task counts to the number of input
  tasks, and the pages' lists concatenated in page order are the inputs themselves.
\<close>

definition conserves :: "'e list \<Rightarrow> 't list \<Rightarrow> ('e, 't) page list \<Rightarrow> bool" where
  "conserves evs tks ps \<longleftrightarrow>
     (\<Sum>p\<leftarrow>ps. length (events p)) = length evs \<and>
     (\<Sum>p\<leftarrow>ps. length (tasks p)) = length tks \<and>
     concat (map events ps) = evs \<and> concat (map tasks ps) = tks"

section \<open>Dates, times and text\<close>

text \<open>
  The values that the calendar library hands out, as a tagged union: a \<^verbatim>\<open>datetime.date\<close>
  is its day number, a naive \<^verbatim>\<open>datetime\<close> is its wall-clock reading in seconds, and
  an aware \<^verbatim>\<open>datetime\<close> is its instant in UTC seconds together with the UTC offset of
  its \<open>tzinfo\<close>. Times are counted in whole seconds from 1970-01-01T00:00:00; day \<open>d\<close>
  starts at second \<open>d * 86400\<close>.
\<close>

datatype dtval = DateV int | NaiveV int | AwareV int int

text \<open>
  The \<open>begin_local\<close> and \<open>end_local\<close> of an event are \<open>Arrow\<close> objects, an instant with the
  UTC offset of its zone, or, where the conversion to the local zone has failed, the raw
  date or datetime. The selector \<open>instant\<close> is given a value on raw values only to be
  total: every use of it below comes after a \<open>floor_day\<close> that has raised on them.
\<close>

datatype tval = Arrow (instant: int) (utcoffset: int) | Raw dtval
  where "instant (Raw v) = 0" | "utcoffset (Raw v) = 0"

text \<open>
  \<^verbatim>\<open>x.floor('day')\<close>: midnight of the local day of an \<open>Arrow\<close>, in the same zone. A date
  or a datetime has no such method.
\<close>

fun floor_day :: "tval \<Rightarrow> py_error + tval" where
  "floor_day (Arrow i off) = Inr (Arrow (i - (i + off) mod 86400) off)"
| "floor_day (Raw v) = Inl AttributeError"

text \<open>
  \<^verbatim>\<open>str.lower()\<close> and \<^verbatim>\<open>str.upper()\<close> on ASCII text, and the substring test
  \<^verbatim>\<open>needle in hay\<close>. Text is taken to be ASCII; the keywords looked for below are.
\<close>

definition lower_char :: "char \<Rightarrow> char" where
  "lower_char c =
     (case map_of (zip ''ABCDEFGHIJKLMNOPQRSTUVWXYZ'' ''abcdefghijklmnopqrstuvwxyz'') c of
        Some l \<Rightarrow> l
      | None \<Rightarrow> c)"

definition lower :: "string \<Rightarrow> string" where
  "lower s = map lower_char s"

definition upper_char :: "char \<Rightarrow> char" where
  "upper_char c =
     (case map_of (zip ''abcdefghijklmnopqrstuvwxyz'' ''ABCDEFGHIJKLMNOPQRSTUVWXYZ'') c of
        Some u \<Rightarrow> u
      | None \<Rightarrow> c)"

definition upper :: "string \<Rightarrow> string" where
  "upper s = map upper_char s"

fun starts_with :: "string \<Rightarrow> string \<Rightarrow> bool" where
  "starts_with hay [] = True"
| "starts_with [] (n # ns) = False"
| "starts_with (h # hs) (n # ns) = (h = n \<and> starts_with hs ns)"

fun contains :: "string \<Rightarrow> string \<Rightarrow> bool" where
  "contains [] needle = (needle = [])"
| "contains (h # hs) needle = (starts_with (h # hs) needle \<or> contains hs needle)"

section \<open>Events and their validation: \<open>validate_events\<close>\<close>

text \<open>The event dictionary that \<^verbatim>\<open>parse_events\<close> builds and the validator reads.\<close>

record event =
  uid :: string
  summary :: string
  description :: string
  location :: string
  begin_local :: tval
  end_local :: tval
  all_day :: bool
  cal_name :: "string option"
  is_recurring :: bool

text \<open>
  The findings that the validator writes to its log file, one constructor per message.
\<close>

datatype issue =
    DuplicateEvent string tval
  | CancelledEventPresent string tval
  | AllDayBleed string tval tval
  | OutOfOrderDay string tval
  | OutOfOrderTime string tval

text \<open>
  The identity key \<^verbatim>\<open>(summary, str(begin_local), str(end_local), all_day)\<close>. \<open>str\<close> prints
  all of a value (date and time in the value's own zone, and the offset), so two values
  print alike exactly when they are the same value; the key keeps the values themselves.
\<close>

type_synonym event_key = "string \<times> tval \<times> tval \<times> bool"

definition event_key :: "event \<Rightarrow> event_key" where
  "event_key e = (summary e, begin_local e, end_local e, all_day e)"

text \<open>The local variables of the first loop that live across iterations.\<close>

record vstate =
  seen :: "event_key set"
  last_day :: "tval option"
  last_time :: "tval option"
  issues :: "issue list"
  fixed_events :: "event list"

text \<open>
  The all-day bleed check of one event: \<^verbatim>\<open>(end_day - begin_day).days > 1\<close> on the two
  floored values, for an all-day event only. The difference of two \<open>Arrow\<close>s is the
  difference of their instants, and \<open>.days\<close> is its floor in days.
\<close>

definition bleed_check :: "event \<Rightarrow> py_error + bool" where
  "bleed_check e =
     (if all_day e then
        (case floor_day (begin_local e) of
           Inl err \<Rightarrow> Inl err
         | Inr begin_day \<Rightarrow>
            (case floor_day (end_local e) of
               Inl err \<Rightarrow> Inl err
             | Inr end_day \<Rightarrow> Inr ((instant end_day - instant begin_day) div 86400 > 1)))
      else Inr False)"

text \<open>
  One iteration of \<^verbatim>\<open>for i, event in enumerate(events)\<close>. \<open>Arrow\<close>s compare by instant.
\<close>

definition audit_event :: "vstate \<Rightarrow> event \<Rightarrow> py_error + vstate" where
  "audit_event st e =
     (let key = event_key e;
          duplicate = (key \<in> seen st);
          issues1 = issues st @
            (if duplicate then [DuplicateEvent (summary e) (begin_local e)] else []);
          seen1 = (if duplicate then seen st else insert key (seen st));
          cancelled1 = contains (lower (summary e) @ lower (description e)) ''cancel'';
          issues2 = issues1 @
            (if cancelled1 then [CancelledEventPresent (summary e) (begin_local e)] else [])
      in case bleed_check e of
           Inl err \<Rightarrow> Inl err
         | Inr bleed \<Rightarrow>
            (let issues3 = issues2 @
                   (if bleed then [AllDayBleed (summary e) (begin_local e) (end_local e)]
                    else []);
                 cancelled = (cancelled1 \<or> bleed)
             in case floor_day (begin_local e) of
                  Inl err \<Rightarrow> Inl err
                | Inr day \<Rightarrow>
                   (let issues4 = issues3 @
                          (case last_day st of
                             Some ld \<Rightarrow>
                               if instant day < instant ld
                               then [OutOfOrderDay (summary e) (begin_local e)] else []
                           | None \<Rightarrow> []);
                        issues5 = issues4 @
                          (case (last_day st, last_time st) of
                             (Some ld, Some lt) \<Rightarrow>
                               if instant ld = instant day \<and>
                                  instant (begin_local e) < instant lt
                               then [OutOfOrderTime (summary e) (begin_local e)] else []
                           | _ \<Rightarrow> [])
                    in Inr \<lparr>seen = seen1, last_day = Some day,
                            last_time = Some (begin_local e), issues = issues5,
                            fixed_events =
                              (if \<not> duplicate \<and> \<not> cancelled then fixed_events st @ [e]
                               else fixed_events st)\<rparr>)))"

fun audit_loop :: "vstate \<Rightarrow> event list \<Rightarrow> py_error + vstate" where
  "audit_loop st [] = Inr st"
| "audit_loop st (e # es) =
     (case audit_event st e of Inl err \<Rightarrow> Inl err | Inr st1 \<Rightarrow> audit_loop st1 es)"

text \<open>
  The dictionary \<^verbatim>\<open>events_by_day\<close>, as an association list in insertion order. Its keys
  are floored \<open>Arrow\<close>s, which hash and compare by instant, so the instant is the key.
  \<open>add_to_day\<close> is \<^verbatim>\<open>events_by_day.setdefault(day, []).append(event)\<close>.
\<close>

fun add_to_day :: "int \<Rightarrow> event \<Rightarrow> (int \<times> event list) list \<Rightarrow> (int \<times> event list) list" where
  "add_to_day d e [] = [(d, [e])]"
| "add_to_day d e ((k, es) # rest) =
     (if k = d then (k, es @ [e]) # rest else (k, es) # add_to_day d e rest)"

fun group_by_day ::
  "(int \<times> event list) list \<Rightarrow> event list \<Rightarrow> py_error + (int \<times> event list) list" where
  "group_by_day events_by_day [] = Inr events_by_day"
| "group_by_day events_by_day (e # es) =
     (case floor_day (begin_local e) of
        Inl err \<Rightarrow> Inl err
      | Inr day \<Rightarrow> group_by_day (add_to_day (instant day) e events_by_day) es)"

text \<open>
  The sort key \<^verbatim>\<open>(e["begin_local"], e["summary"])\<close>: tuples compare lexicographically,
  \<open>Arrow\<close>s by instant, strings by code point. \<^verbatim>\<open>list.sort\<close> is stable, as \<open>sort_key\<close> is.
\<close>

definition begin_summary :: "event \<Rightarrow> int \<times> string" where
  "begin_summary e = (instant (begin_local e), summary e)"

definition day_block :: "event list \<Rightarrow> event list" where
  "day_block day_events =
     sort_key begin_summary (filter all_day day_events) @
     sort_key begin_summary (filter (\<lambda>e. \<not> all_day e) day_events)"

definition reorder_days :: "(int \<times> event list) list \<Rightarrow> event list" where
  "reorder_days events_by_day =
     concat (map (\<lambda>day. case map_of events_by_day day of
                          Some day_events \<Rightarrow> day_block day_events
                        | None \<Rightarrow> [])
               (sort (map fst events_by_day)))"

text \<open>
  The whole validator. The findings go to the log file and are not returned; writing the
  file is outside the model.
\<close>

definition validate_events :: "event list \<Rightarrow> py_error + event list" where
  "validate_events evs =
     (case audit_loop \<lparr>seen = {}, last_day = None, last_time = None, issues = [],
                       fixed_events = []\<rparr> evs of
        Inl err \<Rightarrow> Inl err
      | Inr st \<Rightarrow>
         (case group_by_day [] (fixed_events st) of
            Inl err \<Rightarrow> Inl err
          | Inr events_by_day \<Rightarrow> Inr (reorder_days events_by_day)))"

text \<open>
  The canonical order of the specification as one key: the start day, then all-day before
  timed (\<open>False < True\<close>), then the start, then the summary, compared lexicographically.
\<close>

definition start_day :: "event \<Rightarrow> int" where
  "start_day e = instant (begin_local e) - (instant (begin_local e) + utcoffset (begin_local e)) mod 86400"

definition canonical_key :: "event \<Rightarrow> int \<times> bool \<times> int \<times> string" where
  "canonical_key e = (start_day e, \<not> all_day e, instant (begin_local e), summary e)"

text \<open>
  Notions for the proofs about the validator. An event is \<open>floorable\<close> when every
  \<open>floor\<close> that the validator calls on it succeeds; \<open>bleeds\<close> and \<open>looks_cancelled\<close> are the
  two removal tests on such an event; \<open>kept\<close> is the list that the first loop leaves in
  \<open>fixed_events\<close>, given the keys seen so far.
\<close>

fun is_arrow :: "tval \<Rightarrow> bool" where
  "is_arrow (Arrow i off) = True"
| "is_arrow (Raw v) = False"

definition floorable :: "event \<Rightarrow> bool" where
  "floorable e \<longleftrightarrow> is_arrow (begin_local e) \<and> (all_day e \<longrightarrow> is_arrow (end_local e))"

definition day_start :: "tval \<Rightarrow> int" where
  "day_start t = instant t - (instant t + utcoffset t) mod 86400"

definition bleeds :: "event \<Rightarrow> bool" where
  "bleeds e \<longleftrightarrow>
     all_day e \<and> (day_start (end_local e) - day_start (begin_local e)) div 86400 > 1"

definition looks_cancelled :: "event \<Rightarrow> bool" where
  "looks_cancelled e \<longleftrightarrow> contains (lower (summary e) @ lower (description e)) ''cancel''"

fun kept :: "event_key set \<Rightarrow> event list \<Rightarrow> event list" where
  "kept S [] = []"
| "kept S (e # es) =
     (if event_key e \<in> S \<or> looks_cancelled e \<or> bleeds e then [] else [e]) @
     kept (insert (event_key e) S) es"

text \<open>The dictionary that the grouping loop builds from a list of floorable events.\<close>

definition grouped :: "event list \<Rightarrow> (int \<times> event list) list" where
  "grouped xs = foldl (\<lambda>m e. add_to_day (start_day e) e m) [] xs"

text \<open>
  Sample events for the concrete checks: a timed and an all-day event in the zone UTC+1,
  given by summary, begin and end.
\<close>

definition timed_event :: "string \<Rightarrow> int \<Rightarrow> int \<Rightarrow> event" where
  "timed_event s b e =
     \<lparr>uid = ''u'', summary = s, description = [], location = [],
      begin_local = Arrow b 3600, end_local = Arrow e 3600, all_day = False,
      cal_name = None, is_recurring = False\<rparr>"

definition all_day_event :: "string \<Rightarrow> int \<Rightarrow> int \<Rightarrow> event" where
  "all_day_event s b e =
     \<lparr>uid = ''u'', summary = s, description = [], location = [],
      begin_local = Arrow b 3600, end_local = Arrow e 3600, all_day = True,
      cal_name = None, is_recurring = False\<rparr>"

section \<open>The Time Normalizer: \<open>convert_to_local\<close>\<close>

text \<open>
  The zone database behind \<^verbatim>\<open>pytz.timezone\<close> and behind the zone names that \<open>arrow\<close>
  accepts is a parameter: a partial map from zone identifiers to UTC offsets in seconds,
  undefined on the identifiers for which the lookup raises. A zone is one offset here;
  daylight-saving transitions are outside the model.
\<close>

type_synonym tzdb = "string \<Rightarrow> int option"

text \<open>
  The wall-clock readings that a \<open>datetime\<close> can hold, from \<^verbatim>\<open>datetime.min\<close>
  (0001-01-01T00:00:00) to \<^verbatim>\<open>datetime.max\<close> (the last second of 9999-12-31). Datetime
  arithmetic that leaves this range raises \<open>OverflowError\<close>.
\<close>

definition datetime_min :: int where
  "datetime_min = - 62135596800"

definition datetime_max :: int where
  "datetime_max = 253402300799"

definition representable :: "int \<Rightarrow> bool" where
  "representable x \<longleftrightarrow> datetime_min \<le> x \<and> x \<le> datetime_max"

text \<open>
  \<open>dt\<close> is \<open>None\<close> or a date or datetime (which are never falsy). The lookup
  \<^verbatim>\<open>pytz.timezone(timezone_str)\<close> is reached only for an aware datetime and is not inside
  any \<open>try\<close>; neither is \<^verbatim>\<open>dt.astimezone(local_tz)\<close>, which returns \<open>dt\<close> itself when
  \<open>dt.tzinfo\<close> is the very object \<open>local_tz\<close>, and otherwise computes the UTC reading
  \<open>dt - dt.utcoffset()\<close> and from it the local reading, each of which must be
  representable. Whether the two \<open>tzinfo\<close> objects are the same one is the parameter
  \<open>same_tzinfo\<close>, since values here do not carry object identity.
\<close>

definition convert_to_local ::
  "tzdb \<Rightarrow> bool \<Rightarrow> dtval option \<Rightarrow> string \<Rightarrow> py_error + dtval option" where
  "convert_to_local zn same_tzinfo dt timezone_str =
     (case dt of
        None \<Rightarrow> Inr None
      | Some (DateV d) \<Rightarrow> Inr dt
      | Some (NaiveV s) \<Rightarrow> Inr dt
      | Some (AwareV u off) \<Rightarrow>
         (case zn timezone_str of
            None \<Rightarrow> Inl UnknownTimeZoneError
          | Some local_off \<Rightarrow>
              if same_tzinfo then Inr dt
              else if \<not> representable u then Inl OverflowError
              else if \<not> representable (u + local_off) then Inl OverflowError
              else Inr (Some (AwareV u local_off))))"

fun is_aware :: "dtval option \<Rightarrow> bool" where
  "is_aware (Some (AwareV u off)) = True"
| "is_aware v = False"

text \<open>A two-zone database for the concrete checks.\<close>

definition sample_zones :: tzdb where
  "sample_zones = map_of [(''UTC'', 0), (''Europe/Berlin'', 3600)]"

section \<open>Recurrence resolution: \<open>parse_events\<close>\<close>

subsection \<open>Components and keys\<close>

text \<open>
  A VEVENT component, by the properties that \<^verbatim>\<open>parse_events\<close> reads. A missing property
  is \<open>None\<close>; \<open>RRULE\<close> is the rule text that \<^verbatim>\<open>vRecur.to_ical\<close> gives; \<open>EXDATE\<close> is the
  flattened list of excluded values that the function collects in \<open>exdates\<close>.
\<close>

record vevent =
  UID :: "string option"
  RECURRENCE_ID :: "dtval option"
  STATUS :: "string option"
  SUMMARY :: "string option"
  DESCRIPTION :: "string option"
  LOCATION :: "string option"
  TRANSP :: "string option"
  DTSTART :: "dtval option"
  DTEND :: "dtval option"
  RRULE :: "string option"
  EXDATE :: "dtval list"

text \<open>\<^verbatim>\<open>str(component.get(K, '') or '')\<close>.\<close>

definition text_of :: "string option \<Rightarrow> string" where
  "text_of v = (case v of None \<Rightarrow> [] | Some s \<Rightarrow> s)"

text \<open>
  Dates and datetimes as dictionary keys, set members and operands of \<open>==\<close>: two aware
  datetimes are equal, and hash alike, when they are the same instant, whatever their
  offsets; values of different kinds are never equal. \<open>norm_dt\<close> picks the representative.
\<close>

fun norm_dt :: "dtval \<Rightarrow> dtval" where
  "norm_dt (AwareV u off) = AwareV u 0"
| "norm_dt v = v"

type_synonym occ_key = "string \<times> dtval option"

definition component_key :: "vevent \<Rightarrow> occ_key" where
  "component_key c = (text_of (UID c), map_option norm_dt (RECURRENCE_ID c))"

subsection \<open>Pass 1: classification\<close>

record pass1 =
  master_events :: "vevent list"
  overrides :: "occ_key \<Rightarrow> vevent option"
  cancelled_keys :: "occ_key set"

text \<open>
  The multi-day test \<^verbatim>\<open>(dtend - dtstart).days > 1 and not summary\<close>, made when both
  properties are present and \<open>DTSTART\<close> is a date. Subtracting a date from a datetime
  raises \<open>TypeError\<close>.
\<close>

definition multi_day_unnamed :: "vevent \<Rightarrow> py_error + bool" where
  "multi_day_unnamed c =
     (case (DTSTART c, DTEND c) of
        (Some (DateV a), Some (DateV b)) \<Rightarrow> Inr (b - a > 1 \<and> text_of (SUMMARY c) = [])
      | (Some (DateV a), Some (NaiveV s)) \<Rightarrow> Inl TypeError
      | (Some (DateV a), Some (AwareV u off)) \<Rightarrow> Inl TypeError
      | _ \<Rightarrow> Inr False)"

definition cancellation_verdict :: "vevent \<Rightarrow> py_error + bool" where
  "cancellation_verdict c =
     (let status = upper (text_of (STATUS c));
          summary_text = text_of (SUMMARY c);
          description_text = text_of (DESCRIPTION c);
          transparency = lower (text_of (TRANSP c));
          by_status = (status = ''CANCELLED'');
          by_text = (contains (lower summary_text) ''cancelled'' \<or>
                     contains (lower summary_text) ''canceled'' \<or>
                     contains (lower description_text) ''cancelled'' \<or>
                     contains (lower description_text) ''canceled'');
          by_transparency = (transparency = ''opaque'' \<and> DTSTART c = None)
      in case multi_day_unnamed c of
           Inl err \<Rightarrow> Inl err
         | Inr by_span \<Rightarrow>
             Inr (by_status \<or> by_text \<or> by_transparency \<or> by_span \<or>
                  (RECURRENCE_ID c \<noteq> None \<and>
                   (status = ''CANCELLED'' \<or>
                    (text_of (SUMMARY c) = [] \<and> text_of (LOCATION c) = [] \<and>
                     text_of (DESCRIPTION c) = [])))))"

definition classify_component :: "pass1 \<Rightarrow> vevent \<Rightarrow> py_error + pass1" where
  "classify_component st c =
     (case cancellation_verdict c of
        Inl err \<Rightarrow> Inl err
      | Inr cancelled \<Rightarrow>
          Inr (if cancelled then st\<lparr>cancelled_keys := insert (component_key c) (cancelled_keys st)\<rparr>
               else if RECURRENCE_ID c \<noteq> None
               then st\<lparr>overrides := (overrides st)(component_key c \<mapsto> c)\<rparr>
               else st\<lparr>master_events := master_events st @ [c]\<rparr>))"

fun classify_all :: "pass1 \<Rightarrow> vevent list \<Rightarrow> py_error + pass1" where
  "classify_all st [] = Inr st"
| "classify_all st (c # cs) =
     (case classify_component st c of Inl err \<Rightarrow> Inl err | Inr st1 \<Rightarrow> classify_all st1 cs)"

definition pass1_start :: pass1 where
  "pass1_start = \<lparr>master_events = [], overrides = Map.empty, cancelled_keys = {}\<rparr>"

text \<open>
  The text test of the specification, a case-insensitive match on \<open>cancel\<close>, and the text
  test of the code, on the two spellings \<open>cancelled\<close> and \<open>canceled\<close>.
\<close>

definition mentions_cancel :: "vevent \<Rightarrow> bool" where
  "mentions_cancel c \<longleftrightarrow>
     contains (lower (text_of (SUMMARY c))) ''cancel'' \<or>
     contains (lower (text_of (DESCRIPTION c))) ''cancel''"

definition mentions_cancelled :: "vevent \<Rightarrow> bool" where
  "mentions_cancelled c \<longleftrightarrow>
     contains (lower (text_of (SUMMARY c))) ''cancelled'' \<or>
     contains (lower (text_of (SUMMARY c))) ''canceled'' \<or>
     contains (lower (text_of (DESCRIPTION c))) ''cancelled'' \<or>
     contains (lower (text_of (DESCRIPTION c))) ''canceled''"

subsection \<open>Pass 2: expansion\<close>



















text \<open>
  Samples for the concrete checks: a component without any property, and an environment
  whose calendar parser returns the given components, whose rules recur daily from their
  start for ten days, and where it is noon UTC on day 100.
\<close>

definition empty_vevent :: vevent where
  "empty_vevent =
     \<lparr>UID = None, RECURRENCE_ID = None, STATUS = None, SUMMARY = None, DESCRIPTION = None,
      LOCATION = None, TRANSP = None, DTSTART = None, DTEND = None, RRULE = None,
      EXDATE = []\<rparr>"


section \<open>Pagination: proofs\<close>

subsection \<open>The loops in closed form\<close>

lemma fill_page_eq:
  "fill_page xs pg n t =
     (drop (nat (t - n)) xs, pg @ take (nat (t - n)) xs, n + int (min (length xs) (nat (t - n))))"
proof (induction xs arbitrary: pg n)
  case Nil
  then show ?case by simp
next
  case (Cons x xs)
  show ?case
  proof (cases "n < t")
    case True
    then have "nat (t - n) = Suc (nat (t - (n + 1)))" by simp
    with True Cons show ?thesis by simp
  next
    case False
    then show ?thesis by simp
  qed
qed

lemma fill_one_page_conserve:
  assumes "fill_one_page m N i t er tr = (pg, er', tr')"
  shows "events pg @ er' = er" and "tasks pg @ tr' = tr"
proof -
  obtain er1 pe n1 where f1: "fill_page er [] 0 t = (er1, pe, n1)"
    by (cases "fill_page er [] 0 t") auto
  obtain tr1 pt n2 where f2: "fill_page tr [] n1 t = (tr1, pt, n2)"
    by (cases "fill_page tr [] n1 t") auto
  from f1 have e1: "pe @ er1 = er" by (auto simp: fill_page_eq)
  from f2 have e2: "pt @ tr1 = tr" by (auto simp: fill_page_eq)
  from assms f1 f2 e1 e2 show "events pg @ er' = er"
    by (auto simp: fill_one_page_def split: if_splits list.splits)
  from assms f1 f2 e1 e2 show "tasks pg @ tr' = tr"
    by (auto simp: fill_one_page_def split: if_splits list.splits)
qed

lemma place_pages_conserve:
  "place_pages m N i ts er tr pages = (ps, er', tr') \<Longrightarrow>
     concat (map events ps) @ er' = concat (map events pages) @ er \<and>
     concat (map tasks ps) @ tr' = concat (map tasks pages) @ tr"
proof (induction ts arbitrary: i er tr pages)
  case Nil
  then show ?case by simp
next
  case (Cons t rest)
  obtain pg er1 tr1 where st: "fill_one_page m N i t er tr = (pg, er1, tr1)"
    by (cases "fill_one_page m N i t er tr") auto
  with Cons.prems have "place_pages m N (i + 1) rest er1 tr1 (pages @ [pg]) = (ps, er', tr')"
    by simp
  from Cons.IH[OF this] fill_one_page_conserve[OF st] show ?case by auto
qed

lemma fill_one_page_exact:
  assumes "0 \<le> t" and "t \<le> int (length er) + int (length tr)"
    and "fill_one_page m N i t er tr = (pg, er', tr')"
  shows "page_total pg = t"
    and "int (length er') + int (length tr') = int (length er) + int (length tr) - t"
proof -
  obtain er1 pe n1 where f1: "fill_page er [] 0 t = (er1, pe, n1)"
    by (cases "fill_page er [] 0 t") auto
  obtain tr1 pt n2 where f2: "fill_page tr [] n1 t = (tr1, pt, n2)"
    by (cases "fill_page tr [] n1 t") auto
  from f1 have n1: "n1 = int (min (length er) (nat t))" and pe: "pe = take (nat t) er"
    and er1: "er1 = drop (nat t) er"
    by (simp_all add: fill_page_eq)
  from f2 have n2: "n2 = n1 + int (min (length tr) (nat (t - n1)))"
    and pt: "pt = take (nat (t - n1)) tr" and tr1: "tr1 = drop (nat (t - n1)) tr"
    by (simp_all add: fill_page_eq)
  from assms(1,2) n1 n2 have n2t: "n2 = t" by (auto simp: min_def split: if_splits)
  with assms(3) f1 f2 have pg: "pg = \<lparr>events = pe, tasks = pt\<rparr>" and "er' = er1" and "tr' = tr1"
    by (simp_all add: fill_one_page_def)
  from pg pe pt n1 n2 n2t assms(1,2) show "page_total pg = t"
    by (auto simp: page_total_def min_def split: if_splits)
  have l1: "int (length er1) = int (length er) - n1"
    unfolding er1 n1 by (simp add: min_def)
  have l2: "int (length tr1) = int (length tr) - (n2 - n1)"
    unfolding tr1 n2 by (simp add: min_def)
  from l1 l2 n2t \<open>er' = er1\<close> \<open>tr' = tr1\<close>
  show "int (length er') + int (length tr') = int (length er) + int (length tr) - t"
    by simp
qed

lemma place_pages_exact:
  "\<forall>t\<in>set ts. 0 \<le> t \<Longrightarrow> sum_list ts = int (length er) + int (length tr) \<Longrightarrow>
   \<exists>new. place_pages m N i ts er tr pages = (pages @ new, [], []) \<and> map page_total new = ts"
proof (induction ts arbitrary: i er tr pages)
  case Nil
  then have "int (length er) + int (length tr) = 0" by simp
  then have "length er = 0" and "length tr = 0" by linarith+
  then show ?case by simp
next
  case (Cons t rest)
  obtain pg er1 tr1 where st: "fill_one_page m N i t er tr = (pg, er1, tr1)"
    by (cases "fill_one_page m N i t er tr") auto
  from Cons.prems have t0: "0 \<le> t" and rest0: "\<forall>t\<in>set rest. 0 \<le> t" by simp_all
  from rest0 have "0 \<le> sum_list rest" by (simp add: sum_list_nonneg)
  with Cons.prems(2) have tle: "t \<le> int (length er) + int (length tr)" by simp
  from fill_one_page_exact[OF t0 tle st] Cons.prems(2)
  have pt: "page_total pg = t"
    and len: "sum_list rest = int (length er1) + int (length tr1)" by simp_all
  from Cons.IH[OF rest0 len, of "i + 1" "pages @ [pg]"]
  obtain new where "place_pages m N (i + 1) rest er1 tr1 (pages @ [pg]) = ((pages @ [pg]) @ new, [], [])"
    and "map page_total new = rest" by blast
  with st pt have "place_pages m N i (t # rest) er tr pages = (pages @ (pg # new), [], []) \<and>
      map page_total (pg # new) = t # rest" by simp
  then show ?case by (rule exI[where x = "pg # new"])
qed


lemma sum_targets:
  assumes "0 \<le> n" and "0 \<le> r"
  shows "sum_list (map (\<lambda>i. if i < r then q + 1 else q) [0..n - 1]) = n * q + min n r"
  using assms(1)
proof (induction n rule: int_ge_induct)
  case base
  then show ?case using assms(2) by simp
next
  case (step n)
  have "[0..n + 1 - 1] = [0..n - 1] @ [n]" using step.hyps by (simp add: upto_rec2)
  with step show ?case by (simp add: algebra_simps min_def)
qed

lemma page_targets_eq:
  assumes "0 < p" and "0 \<le> tot"
  shows "page_targets tot p =
           map (\<lambda>i. tot div p + (if i < tot mod p then 1 else 0)) [0..p - 1]"
proof -
  from assms have "0 \<le> tot div p" by (simp add: pos_imp_zdiv_nonneg_iff)
  then show ?thesis by (auto simp: page_targets_def Let_def max_def min_def)
qed

lemma page_targets_sum:
  assumes "0 < p" and "0 \<le> tot"
  shows "sum_list (page_targets tot p) = tot"
proof -
  have r: "0 \<le> tot mod p" "tot mod p < p" using assms by simp_all
  have "page_targets tot p = map (\<lambda>i. if i < tot mod p then tot div p + 1 else tot div p) [0..p - 1]"
    unfolding page_targets_eq[OF assms] by (rule map_cong) auto
  then have "sum_list (page_targets tot p) = p * (tot div p) + min p (tot mod p)"
    using sum_targets[of p "tot mod p" "tot div p"] assms r by simp
  also have "\<dots> = tot" using r by (simp add: min_def)
  finally show ?thesis .
qed



lemma ceil_div_eq:
  assumes "0 < (m::int)"
  shows "(tot + m - 1) div m = - ((- tot) div m)"
proof -
  define q where "q = (- tot) div m"
  define r where "r = (- tot) mod m"
  have eq: "- tot = m * q + r" unfolding q_def r_def by simp
  have r: "0 \<le> r" "r < m" unfolding r_def using assms by simp_all
  have "tot + m - 1 = m * (- q) + (m - 1 - r)" using eq by (simp add: algebra_simps)
  moreover have "0 \<le> m - 1 - r" "m - 1 - r < m" using r by simp_all
  ultimately have "(tot + m - 1) div m = - q" by (rule int_div_pos_eq)
  then show ?thesis by (simp add: q_def)
qed

lemma ceil_pages:
  assumes "0 < m"
  shows "(tot + m - 1) div m = \<lceil>real_of_int tot / real_of_int m\<rceil>"
  by (simp add: ceil_div_eq[OF assms] ceiling_divide_eq_div)

lemma pages_cover:
  assumes "0 < (m::int)"
  shows "tot \<le> ((tot + m - 1) div m) * m"
proof -
  have "(tot + m - 1) mod m < m" using assms by simp
  moreover have "((tot + m - 1) div m) * m = (tot + m - 1) - (tot + m - 1) mod m"
    by (simp add: algebra_simps minus_mod_eq_mult_div[symmetric])
  ultimately show ?thesis by linarith
qed

lemma pages_more_than_one:
  assumes "0 < (m::int)" and "m < tot"
  shows "1 < (tot + m - 1) div m"
proof -
  have "2 * m \<le> tot + m - 1" using assms by simp
  then have "(2 * m) div m \<le> (tot + m - 1) div m" using assms(1) by (rule zdiv_mono1)
  then show ?thesis using assms(1) by simp
qed

lemma target_le_max:
  assumes "0 < p" and "tot \<le> p * m" and "0 \<le> i"
  shows "tot div p + (if i < tot mod p then 1 else 0) \<le> (m::int)"
proof -
  have eq: "tot = p * (tot div p) + tot mod p" by simp
  have r: "0 \<le> tot mod p" using assms(1) by simp
  show ?thesis
  proof (cases "0 < tot mod p")
    case True
    with eq assms(2) have "p * (tot div p) < p * m" by linarith
    then have "tot div p < m" using assms(1) by (simp add: mult_less_cancel_left_pos)
    then show ?thesis by simp
  next
    case False
    with r have z: "tot mod p = 0" by simp
    with eq assms(2) have "p * (tot div p) \<le> p * m" by linarith
    then have "tot div p \<le> m" using assms(1) by (simp add: mult_le_cancel_left_pos)
    moreover from z assms(3) have "\<not> i < tot mod p" by simp
    ultimately show ?thesis by simp
  qed
qed


lemma page_targets_length:
  "0 < p \<Longrightarrow> int (length (page_targets tot p)) = p"
  by (simp add: page_targets_def Let_def)

lemma page_targets_nonneg:
  assumes "0 < p" and "0 \<le> tot" and "t \<in> set (page_targets tot p)"
  shows "0 \<le> t"
proof -
  from assms(1,2) have "0 \<le> tot div p" by (simp add: pos_imp_zdiv_nonneg_iff)
  with assms(3) show ?thesis unfolding page_targets_eq[OF assms(1,2)] by auto
qed

lemma distribute_multi:
  assumes m: "0 < max_items"
    and tot: "tot = int (length evs) + int (length tks)"
    and big: "max_items < tot" and small: "tot \<le> 1000"
    and p: "p = (tot + max_items - 1) div max_items"
  shows "\<exists>ps. distribute_items_across_pages evs tks max_items = Inr ps \<and>
              place_pages max_items p 0 (page_targets tot p) evs tks [] = (ps, [], []) \<and>
              map page_total ps = page_targets tot p"
proof -
  from pages_more_than_one[OF m big] p have p1: "1 < p" by simp
  then have p0: "0 < p" by simp
  from m big have tot0: "0 \<le> tot" by simp
  have nn: "\<forall>t\<in>set (page_targets tot p). 0 \<le> t"
    using page_targets_nonneg[OF p0 tot0] by blast
  have sm: "sum_list (page_targets tot p) = int (length evs) + int (length tks)"
    using page_targets_sum[OF p0 tot0] tot by simp
  from place_pages_exact[OF nn sm, of max_items p 0 "[]"]
  obtain ps where pp: "place_pages max_items p 0 (page_targets tot p) evs tks [] = (ps, [], [])"
    and pt: "map page_total ps = page_targets tot p" by auto
  from big m tot have ne: "\<not> (evs = [] \<and> tks = [])" by auto
  have "distribute_items_across_pages evs tks max_items = Inr ps"
    using m big small ne p0 pp
    by (auto simp add: distribute_items_across_pages_def Let_def tot[symmetric] p[symmetric]
        page_targets_length place_leftovers_def)
  with pp pt show ?thesis by blast
qed

subsection \<open>Conservation\<close>

text \<open>
  Claim C1, as amended. For every event list and task list with at most 1000 items in
  total and every positive capacity, the distribution returns pages that conserve the
  input: the pages' event counts sum to the number of events, their task counts to the
  number of tasks, and the concatenation of the pages' event lists (task lists) in page
  order is the input event list (task list), element for element.
\<close>

theorem distribute_conserves_up_to_1000:
  assumes "0 < max_items" and "int (length evs) + int (length tks) \<le> 1000"
  shows "\<exists>ps. distribute_items_across_pages evs tks max_items = Inr ps \<and> conserves evs tks ps"
proof -
  define tot where "tot = int (length evs) + int (length tks)"
  have "\<exists>ps. distribute_items_across_pages evs tks max_items = Inr ps \<and>
              concat (map events ps) = evs \<and> concat (map tasks ps) = tks"
  proof (cases "tot \<le> max_items")
    case True
    with assms show ?thesis
      by (auto simp: distribute_items_across_pages_def Let_def tot_def)
  next
    case False
    then have big: "max_items < tot" by simp
    from distribute_multi[OF assms(1) tot_def big _ refl] assms(2)
    obtain ps where d: "distribute_items_across_pages evs tks max_items = Inr ps"
      and pp: "place_pages max_items ((tot + max_items - 1) div max_items) 0
                 (page_targets tot ((tot + max_items - 1) div max_items)) evs tks [] = (ps, [], [])"
      by (auto simp: tot_def)
    from place_pages_conserve[OF pp] d show ?thesis by simp
  qed
  then obtain ps where d: "distribute_items_across_pages evs tks max_items = Inr ps"
    and e: "concat (map events ps) = evs" and t: "concat (map tasks ps) = tks" by blast
  have "(\<Sum>p\<leftarrow>ps. length (events p)) = length (concat (map events ps))"
    by (simp add: length_concat comp_def)
  moreover have "(\<Sum>p\<leftarrow>ps. length (tasks p)) = length (concat (map tasks ps))"
    by (simp add: length_concat comp_def)
  ultimately have "conserves evs tks ps" using e t by (simp add: conserves_def)
  with d show ?thesis by blast
qed

text \<open>The amended claim at seven events, three tasks and capacity 6.\<close>

theorem distribute_conserves_up_to_1000_witness:
  "(0::int) < 6 \<and>
   int (length [1, 2, 3, 4, 5, 6, 7 :: nat]) + int (length [''a'', ''b'', ''c'']) \<le> 1000 \<and>
   (\<exists>ps. distribute_items_across_pages [1, 2, 3, 4, 5, 6, 7 :: nat] [''a'', ''b'', ''c''] 6 = Inr ps \<and>
         conserves [1, 2, 3, 4, 5, 6, 7 :: nat] [''a'', ''b'', ''c''] ps)"
  using distribute_conserves_up_to_1000 [of 6 "[1, 2, 3, 4, 5, 6, 7 :: nat]" "[''a'', ''b'', ''c'']"]
  by simp

text \<open>
  The claim as written, for every event list, fails at 1001 events, no task and capacity
  6: the safety check returns one empty page, which conserves nothing.
\<close>

theorem distribute_conservation_counterexample:
  "distribute_items_across_pages (replicate 1001 (0::nat)) ([]::string list) 6 =
     Inr [\<lparr>events = [], tasks = []\<rparr>] \<and>
   \<not> conserves (replicate 1001 (0::nat)) ([]::string list) [\<lparr>events = [], tasks = []\<rparr>]"
  by (simp add: distribute_items_across_pages_def conserves_def)

subsection \<open>Capacity\<close>

text \<open>
  Claim C2. For a positive capacity, which is what the distribution contract takes, every
  page of the returned page list holds at most \<open>max_items\<close> items, events and tasks
  together. (The page of the one-page shortcut is within the capacity as well, since the
  shortcut is taken only when the total is at most \<open>max_items\<close>.)
\<close>

theorem distribute_capacity:
  assumes "0 < max_items"
    and "distribute_items_across_pages evs tks max_items = Inr ps"
    and "pg \<in> set ps"
  shows "int (length (events pg)) + int (length (tasks pg)) \<le> max_items"
proof -
  define tot where "tot = int (length evs) + int (length tks)"
  consider (huge) "1000 < tot" | (fits) "tot \<le> 1000" "tot \<le> max_items"
    | (multi) "tot \<le> 1000" "max_items < tot" by linarith
  then show ?thesis
  proof cases
    case huge
    with assms show ?thesis
      by (auto simp: distribute_items_across_pages_def tot_def)
  next
    case fits
    with assms show ?thesis
      by (auto simp: distribute_items_across_pages_def Let_def tot_def split: if_splits)
  next
    case multi
    define p where "p = (tot + max_items - 1) div max_items"
    from distribute_multi[OF assms(1) tot_def multi(2) multi(1) p_def] assms(2)
    have pt: "map page_total ps = page_targets tot p" by auto
    from pages_more_than_one[OF assms(1) multi(2)] have p0: "0 < p" by (simp add: p_def)
    from assms(1) multi(2) have tot0: "0 \<le> tot" by simp
    have cover: "tot \<le> p * max_items" unfolding p_def by (rule pages_cover[OF assms(1)])
    from assms(3) have "page_total pg \<in> set (map page_total ps)" by simp
    then have "page_total pg \<in> set (page_targets tot p)" by (simp only: pt)
    then obtain i where "0 \<le> i"
      and "page_total pg = tot div p + (if i < tot mod p then 1 else 0)"
      unfolding page_targets_eq[OF p0 tot0] by auto
    with target_le_max[OF p0 cover, of i] show ?thesis by (simp add: page_total_def)
  qed
qed

text \<open>Five events and seven tasks at capacity 6 give two pages of six; the second one is checked.\<close>

theorem distribute_capacity_witness:
  "(0::int) < 6 \<and>
   distribute_items_across_pages [1, 2, 3, 4, 5 :: nat] [''a'', ''b'', ''c'', ''d'', ''e'', ''f'', ''g''] 6 =
     Inr [\<lparr>events = [1, 2, 3, 4, 5], tasks = [''a'']\<rparr>,
          \<lparr>events = [], tasks = [''b'', ''c'', ''d'', ''e'', ''f'', ''g'']\<rparr>] \<and>
   \<lparr>events = [], tasks = [''b'', ''c'', ''d'', ''e'', ''f'', ''g'']\<rparr> \<in>
     set [\<lparr>events = [1, 2, 3, 4, 5 :: nat], tasks = [''a'']\<rparr>,
          \<lparr>events = [], tasks = [''b'', ''c'', ''d'', ''e'', ''f'', ''g'']\<rparr>] \<and>
   int (length (events \<lparr>events = [] :: nat list, tasks = [''b'', ''c'', ''d'', ''e'', ''f'', ''g'']\<rparr>)) +
   int (length (tasks \<lparr>events = [] :: nat list, tasks = [''b'', ''c'', ''d'', ''e'', ''f'', ''g'']\<rparr>)) \<le> 6"
proof -
  have d: "distribute_items_across_pages [1, 2, 3, 4, 5 :: nat]
             [''a'', ''b'', ''c'', ''d'', ''e'', ''f'', ''g''] 6 =
           Inr [\<lparr>events = [1, 2, 3, 4, 5], tasks = [''a'']\<rparr>,
                \<lparr>events = [], tasks = [''b'', ''c'', ''d'', ''e'', ''f'', ''g'']\<rparr>]"
    by (simp add: distribute_items_across_pages_def page_targets_def fill_one_page_def
        place_leftovers_def Let_def upto.simps)
  have m: "\<lparr>events = [], tasks = [''b'', ''c'', ''d'', ''e'', ''f'', ''g'']\<rparr> \<in>
     set [\<lparr>events = [1, 2, 3, 4, 5 :: nat], tasks = [''a'']\<rparr>,
          \<lparr>events = [], tasks = [''b'', ''c'', ''d'', ''e'', ''f'', ''g'']\<rparr>]"
    by simp
  have z: "(0::int) < 6" by simp
  from distribute_capacity [OF z d m] d m show ?thesis by simp
qed

subsection \<open>Balance\<close>

text \<open>
  Claim C3, as amended. Whenever the total number of items exceeds a positive \<open>max_items\<close>
  and is at most 1000, the distribution returns exactly \<open>p = ceil(total / max_items)\<close>
  pages, and their item counts, in page order, are \<open>total // p\<close> each with one more on the
  first \<open>total % p\<close> pages.
\<close>

theorem distribute_balanced_up_to_1000:
  assumes "0 < max_items"
    and "max_items < int (length evs) + int (length tks)"
    and "int (length evs) + int (length tks) \<le> 1000"
  shows "\<exists>ps. distribute_items_across_pages evs tks max_items = Inr ps \<and>
           (let tot = int (length evs) + int (length tks);
                p = \<lceil>real_of_int tot / real_of_int max_items\<rceil>
            in int (length ps) = p \<and>
               map page_total ps =
                 map (\<lambda>i. tot div p + (if i < tot mod p then 1 else 0)) [0..p - 1])"
proof -
  define tot where "tot = int (length evs) + int (length tks)"
  define p where "p = (tot + max_items - 1) div max_items"
  from distribute_multi[OF assms(1) tot_def _ _ p_def] assms(2,3)
  obtain ps where d: "distribute_items_across_pages evs tks max_items = Inr ps"
    and pt: "map page_total ps = page_targets tot p" by (auto simp: tot_def)
  from pages_more_than_one[OF assms(1), of tot] assms(2) have p0: "0 < p"
    by (simp add: p_def tot_def)
  from assms(1,2) have tot0: "0 \<le> tot" by (simp add: tot_def)
  have pc: "p = \<lceil>real_of_int tot / real_of_int max_items\<rceil>"
    unfolding p_def by (rule ceil_pages[OF assms(1)])
  have "int (length ps) = int (length (map page_total ps))" by simp
  also have "\<dots> = p" unfolding pt by (rule page_targets_length[OF p0])
  finally have len: "int (length ps) = p" .
  from pt have sizes: "map page_total ps =
      map (\<lambda>i. tot div p + (if i < tot mod p then 1 else 0)) [0..p - 1]"
    by (simp only: page_targets_eq[OF p0 tot0])
  from d len sizes show ?thesis
    unfolding Let_def tot_def[symmetric] pc[symmetric] by blast
qed

text \<open>
  The example of the claim: 20 items (16 events and 4 tasks) at capacity 8 give three
  pages of sizes 7, 7 and 6.
\<close>

theorem distribute_balanced_up_to_1000_witness:
  "(0::int) < 8 \<and>
   8 < int (length (replicate 16 (0::nat))) + int (length (replicate 4 ''t'')) \<and>
   int (length (replicate 16 (0::nat))) + int (length (replicate 4 ''t'')) \<le> 1000 \<and>
   (\<exists>ps. distribute_items_across_pages (replicate 16 (0::nat)) (replicate 4 ''t'') 8 = Inr ps \<and>
      int (length ps) = 3 \<and> map page_total ps = [7, 7, 6])"
  using distribute_balanced_up_to_1000 [of 8 "replicate 16 (0::nat)" "replicate 4 ''t''"]
  by (simp add: Let_def upto.simps)

text \<open>
  The claim as written, for every total above \<open>max_items\<close>, fails at 1000 events, one task
  and capacity 8: \<open>ceil(1001 / 8)\<close> is 126, and one empty page is returned.
\<close>

theorem distribute_balance_counterexample:
  "distribute_items_across_pages (replicate 1000 (0::nat)) [''t''] 8 =
     Inr [\<lparr>events = [], tasks = []\<rparr>] \<and>
   int (length [\<lparr>events = [] :: nat list, tasks = [] :: string list\<rparr>]) \<noteq> \<lceil>1001 / (8::real)\<rceil>"
  by (simp add: distribute_items_across_pages_def)

subsection \<open>Six events and four tasks at capacity 6\<close>

text \<open>
  Claim C4, as amended. Distributing 6 events and 4 tasks with \<open>max_items = 6\<close> yields two
  pages of five items each: the first holds the first five events and no task, the second
  holds the sixth event followed by the four tasks.
\<close>

theorem distribute_six_events_four_tasks:
  "distribute_items_across_pages [e1, e2, e3, e4, e5, e6] [t1, t2, t3, t4] 6 =
     Inr [\<lparr>events = [e1, e2, e3, e4, e5], tasks = []\<rparr>,
          \<lparr>events = [e6], tasks = [t1, t2, t3, t4]\<rparr>]"
  by (simp add: distribute_items_across_pages_def page_targets_def fill_one_page_def
      place_leftovers_def Let_def upto.simps)

text \<open>
  The claim as written expects the single page of six events and no task; on six numbered
  events and four named tasks the result is another list, of two pages.
\<close>

theorem distribute_six_events_four_tasks_counterexample:
  "distribute_items_across_pages [1, 2, 3, 4, 5, 6 :: nat] [''a'', ''b'', ''c'', ''d''] 6 \<noteq>
     Inr [\<lparr>events = [1, 2, 3, 4, 5, 6], tasks = []\<rparr>] \<and>
   length (projr (distribute_items_across_pages [1, 2, 3, 4, 5, 6 :: nat]
                    [''a'', ''b'', ''c'', ''d''] 6)) = 2"
  by (simp add: distribute_items_across_pages_def page_targets_def fill_one_page_def
      place_leftovers_def Let_def upto.simps)

subsection \<open>More than 1000 items\<close>

text \<open>
  Claim C10. For every input where \<open>len(events) + len(tasks)\<close> exceeds 1000, whatever the
  capacity, the distribution returns a single page whose event list and task list are both
  empty: every input item is discarded.
\<close>

theorem distribute_over_1000_discards:
  assumes "1000 < int (length evs) + int (length tks)"
  shows "distribute_items_across_pages evs tks max_items = Inr [\<lparr>events = [], tasks = []\<rparr>]"
  using assms by (simp add: distribute_items_across_pages_def)

text \<open>600 events and 401 tasks at capacity 8.\<close>

theorem distribute_over_1000_discards_witness:
  "1000 < int (length (replicate 600 (0::nat))) + int (length (replicate 401 ''t'')) \<and>
   distribute_items_across_pages (replicate 600 (0::nat)) (replicate 401 ''t'') 8 =
     Inr [\<lparr>events = [], tasks = []\<rparr>]"
  using distribute_over_1000_discards [of "replicate 600 (0::nat)" "replicate 401 ''t''" 8]
  by simp

section \<open>Validation: proofs\<close>

subsection \<open>The first loop and the regrouping in closed form\<close>

lemma floor_day_arrow: "is_arrow t \<Longrightarrow> floor_day t = Inr (Arrow (day_start t) (utcoffset t))"
  by (cases t) (simp_all add: day_start_def)

lemma floor_day_Inr: "floor_day t = Inr d \<Longrightarrow> is_arrow t"
  by (cases t) simp_all

lemma bleed_check_floorable: "floorable e \<Longrightarrow> bleed_check e = Inr (bleeds e)"
  by (auto simp: bleed_check_def floorable_def bleeds_def floor_day_arrow)

lemma audit_event_floorable:
  assumes "floorable e"
  shows "\<exists>st'. audit_event st e = Inr st' \<and> seen st' = insert (event_key e) (seen st) \<and>
           fixed_events st' = fixed_events st @
             (if event_key e \<in> seen st \<or> looks_cancelled e \<or> bleeds e then [] else [e])"
proof -
  from assms have a: "is_arrow (begin_local e)" by (simp add: floorable_def)
  show ?thesis
    by (auto simp: audit_event_def Let_def bleed_check_floorable[OF assms] floor_day_arrow[OF a]
        looks_cancelled_def insert_absorb)
qed

lemma audit_event_Inr: "audit_event st e = Inr st' \<Longrightarrow> floorable e"
  by (auto simp: audit_event_def Let_def bleed_check_def floorable_def
      split: sum.splits if_splits dest: floor_day_Inr)

lemma audit_loop_floorable:
  "\<forall>e\<in>set evs. floorable e \<Longrightarrow>
   \<exists>st'. audit_loop st evs = Inr st' \<and> fixed_events st' = fixed_events st @ kept (seen st) evs"
proof (induction evs arbitrary: st)
  case Nil
  then show ?case by simp
next
  case (Cons e es)
  from Cons.prems have fe: "floorable e" and fes: "\<forall>e\<in>set es. floorable e" by simp_all
  from audit_event_floorable[OF fe, of st] obtain st1 where
    s1: "audit_event st e = Inr st1" and sn: "seen st1 = insert (event_key e) (seen st)"
    and fx: "fixed_events st1 = fixed_events st @
             (if event_key e \<in> seen st \<or> looks_cancelled e \<or> bleeds e then [] else [e])"
    by blast
  from Cons.IH[OF fes, of st1] obtain st' where
    "audit_loop st1 es = Inr st'" and "fixed_events st' = fixed_events st1 @ kept (seen st1) es"
    by blast
  with s1 sn fx show ?case by simp
qed

lemma audit_loop_Inr: "audit_loop st evs = Inr st' \<Longrightarrow> \<forall>e\<in>set evs. floorable e"
proof (induction evs arbitrary: st)
  case Nil
  then show ?case by simp
next
  case (Cons e es)
  then show ?case by (auto split: sum.splits dest: audit_event_Inr)
qed


lemma start_day_eq: "start_day e = day_start (begin_local e)"
  by (simp add: start_day_def day_start_def)

lemma group_by_day_arrow:
  "\<forall>e\<in>set xs. is_arrow (begin_local e) \<Longrightarrow>
   group_by_day m xs = Inr (foldl (\<lambda>m e. add_to_day (start_day e) e m) m xs)"
  by (induction xs arbitrary: m) (simp_all add: floor_day_arrow start_day_eq)

lemma map_of_add_to_day:
  "map_of (add_to_day d e m) =
     (map_of m)(d \<mapsto> (case map_of m d of None \<Rightarrow> [e] | Some es \<Rightarrow> es @ [e]))"
  by (induction m) (auto simp: fun_eq_iff)

lemma keys_add_to_day_old: "d \<in> fst ` set m \<Longrightarrow> map fst (add_to_day d e m) = map fst m"
proof (induction m)
  case Nil
  then show ?case by simp
next
  case (Cons p m)
  obtain k es where p: "p = (k, es)" by (cases p)
  show ?case
  proof (cases "k = d")
    case True
    then show ?thesis by (simp add: p)
  next
    case False
    with Cons.prems p have "d \<in> fst ` set m" by auto
    with Cons.IH False show ?thesis by (simp add: p)
  qed
qed

lemma keys_add_to_day_new: "d \<notin> fst ` set m \<Longrightarrow> map fst (add_to_day d e m) = map fst m @ [d]"
  by (induction m) auto

lemma keys_add_to_day:
  "map fst (add_to_day d e m) = (if d \<in> fst ` set m then map fst m else map fst m @ [d])"
  by (simp add: keys_add_to_day_old keys_add_to_day_new)

lemma grouped_snoc: "grouped (xs @ [x]) = add_to_day (start_day x) x (grouped xs)"
  by (simp add: grouped_def)

lemma grouped_props:
  "distinct (map fst (grouped xs)) \<and> set (map fst (grouped xs)) = start_day ` set xs \<and>
   (\<forall>d. map_of (grouped xs) d =
      (if d \<in> start_day ` set xs then Some [e\<leftarrow>xs. start_day e = d] else None))"
proof (induction xs rule: rev_induct)
  case Nil
  then show ?case by (simp add: grouped_def)
next
  case (snoc x xs)
  then have d: "distinct (map fst (grouped xs))"
    and k: "set (map fst (grouped xs)) = start_day ` set xs"
    and m: "\<And>d. map_of (grouped xs) d =
      (if d \<in> start_day ` set xs then Some [e\<leftarrow>xs. start_day e = d] else None)" by simp_all
  from k have k': "fst ` set (grouped xs) = start_day ` set xs" by simp
  have "distinct (map fst (grouped (xs @ [x])))"
    using d k' by (simp add: grouped_snoc keys_add_to_day)
  moreover have "set (map fst (grouped (xs @ [x]))) = start_day ` set (xs @ [x])"
    using k' by (auto simp: grouped_snoc keys_add_to_day)
  moreover have "\<forall>d. map_of (grouped (xs @ [x])) d =
      (if d \<in> start_day ` set (xs @ [x]) then Some [e\<leftarrow>xs @ [x]. start_day e = d] else None)"
  proof
    fix d
    have "start_day x \<notin> start_day ` set xs \<Longrightarrow> [e\<leftarrow>xs. start_day e = start_day x] = []"
      by (metis (mono_tags, lifting) filter_False imageI)
    then show "map_of (grouped (xs @ [x])) d =
      (if d \<in> start_day ` set (xs @ [x]) then Some [e\<leftarrow>xs @ [x]. start_day e = d] else None)"
      by (auto simp: grouped_snoc map_of_add_to_day m)
  qed
  ultimately show ?case by blast
qed

lemma insort_key_after:
  "\<forall>a\<in>set A. h a < h x \<Longrightarrow> insort_key h x (A @ B) = A @ insort_key h x B"
  by (induction A) auto

lemma insort_key_before:
  "\<forall>b\<in>set B. h x \<le> h b \<Longrightarrow> insort_key h x (A @ B) = insort_key h x A @ B"
proof (induction A)
  case Nil
  then show ?case by (cases B) auto
next
  case (Cons a A)
  then show ?case by auto
qed

lemma insort_key_pair:
  "\<forall>a\<in>set A. f a = f x \<Longrightarrow> insort_key (\<lambda>x. (f x, g x)) x A = insort_key g x A"
  by (induction A) auto

lemma sort_key_least_block:
  assumes "\<forall>x\<in>set xs. d \<le> f x"
  shows "sort_key (\<lambda>x. (f x, g x)) xs =
           sort_key g [x\<leftarrow>xs. f x = d] @ sort_key (\<lambda>x. (f x, g x)) [x\<leftarrow>xs. f x \<noteq> d]"
  using assms
proof (induction xs)
  case Nil
  then show ?case by simp
next
  case (Cons x xs)
  let ?h = "\<lambda>x. (f x, g x)"
  let ?A = "sort_key g [x\<leftarrow>xs. f x = d]"
  let ?B = "sort_key ?h [x\<leftarrow>xs. f x \<noteq> d]"
  from Cons have ih: "sort_key ?h xs = ?A @ ?B" by simp
  show ?case
  proof (cases "f x = d")
    case True
    have "\<forall>b\<in>set ?B. ?h x \<le> ?h b" using Cons.prems True by (auto simp: less_le)
    then have "insort_key ?h x (?A @ ?B) = insort_key ?h x ?A @ ?B" by (rule insort_key_before)
    also have "insort_key ?h x ?A = insort_key g x ?A"
      using True by (intro insort_key_pair) auto
    finally show ?thesis using True ih by simp
  next
    case False
    with Cons.prems have "d < f x" by (simp add: less_le)
    then have "\<forall>a\<in>set ?A. ?h a < ?h x" by auto
    then have "insort_key ?h x (?A @ ?B) = ?A @ insort_key ?h x ?B" by (rule insort_key_after)
    then show ?thesis using False ih by simp
  qed
qed

lemma sort_key_blocks:
  assumes "sorted ds" and "distinct ds" and "f ` set xs \<subseteq> set ds"
  shows "concat (map (\<lambda>d. sort_key g [x\<leftarrow>xs. f x = d]) ds) = sort_key (\<lambda>x. (f x, g x)) xs"
  using assms
proof (induction ds arbitrary: xs)
  case Nil
  then show ?case by simp
next
  case (Cons d ds)
  let ?xs' = "[x\<leftarrow>xs. f x \<noteq> d]"
  have least: "\<forall>x\<in>set xs. d \<le> f x" using Cons.prems by auto
  have sub: "f ` set ?xs' \<subseteq> set ds" using Cons.prems by auto
  have same: "\<And>d'. d' \<in> set ds \<Longrightarrow> [x\<leftarrow>?xs'. f x = d'] = [x\<leftarrow>xs. f x = d']"
    using Cons.prems(2) by (auto intro!: filter_cong)
  have "concat (map (\<lambda>d. sort_key g [x\<leftarrow>xs. f x = d]) ds) =
        concat (map (\<lambda>d. sort_key g [x\<leftarrow>?xs'. f x = d]) ds)"
    using same by (intro arg_cong[where f = concat] map_cong) simp_all
  also have "\<dots> = sort_key (\<lambda>x. (f x, g x)) ?xs'"
    using Cons.prems sub by (intro Cons.IH) simp_all
  finally show ?case using sort_key_least_block[OF least, of g] by simp
qed

lemma day_block_sort:
  "day_block ys = sort_key (\<lambda>e. (\<not> all_day e, begin_summary e)) ys"
proof -
  have "concat (map (\<lambda>b. sort_key begin_summary [x\<leftarrow>ys. (\<not> all_day x) = b]) [False, True]) =
        sort_key (\<lambda>e. (\<not> all_day e, begin_summary e)) ys"
    by (rule sort_key_blocks) auto
  then show ?thesis by (simp add: day_block_def)
qed

lemma reorder_days_grouped: "reorder_days (grouped xs) = sort_key canonical_key xs"
proof -
  let ?ds = "sort (map fst (grouped xs))"
  from grouped_props[of xs] have d: "distinct (map fst (grouped xs))"
    and k: "set (map fst (grouped xs)) = start_day ` set xs"
    and m: "\<And>d. map_of (grouped xs) d =
      (if d \<in> start_day ` set xs then Some [e\<leftarrow>xs. start_day e = d] else None)" by simp_all
  have "reorder_days (grouped xs) =
        concat (map (\<lambda>d. sort_key (\<lambda>e. (\<not> all_day e, begin_summary e)) [e\<leftarrow>xs. start_day e = d]) ?ds)"
    unfolding reorder_days_def
  proof (intro arg_cong[where f = concat] map_cong refl)
    fix d assume "d \<in> set ?ds"
    with k have "d \<in> start_day ` set xs" by simp
    then show "(case map_of (grouped xs) d of None \<Rightarrow> [] | Some day_events \<Rightarrow> day_block day_events) =
       sort_key (\<lambda>e. (\<not> all_day e, begin_summary e)) [e\<leftarrow>xs. start_day e = d]"
      by (simp add: m day_block_sort)
  qed
  also have "\<dots> = sort_key (\<lambda>e. (start_day e, \<not> all_day e, begin_summary e)) xs"
    using d k by (intro sort_key_blocks) auto
  also have "(\<lambda>e. (start_day e, \<not> all_day e, begin_summary e)) = canonical_key"
    by (simp add: fun_eq_iff canonical_key_def begin_summary_def)
  finally show ?thesis .
qed


lemma kept_subset: "set (kept S evs) \<subseteq> set evs"
  by (induction evs arbitrary: S) auto

lemma kept_fresh: "e \<in> set (kept S evs) \<Longrightarrow> event_key e \<notin> S"
  by (induction evs arbitrary: S) (auto split: if_splits)

lemma kept_clean: "e \<in> set (kept S evs) \<Longrightarrow> \<not> looks_cancelled e \<and> \<not> bleeds e"
  by (induction evs arbitrary: S) (auto split: if_splits)

lemma kept_distinct: "distinct (map event_key (kept S evs))"
proof (induction evs arbitrary: S)
  case Nil
  then show ?case by simp
next
  case (Cons e es)
  have "event_key e \<notin> event_key ` set (kept (insert (event_key e) S) es)"
  proof
    assume "event_key e \<in> event_key ` set (kept (insert (event_key e) S) es)"
    then obtain x where x: "x \<in> set (kept (insert (event_key e) S) es)"
      and "event_key e = event_key x" by auto
    with kept_fresh[OF x] show False by simp
  qed
  with Cons show ?case by simp
qed

lemma kept_id:
  "distinct (map event_key ys) \<Longrightarrow> event_key ` set ys \<inter> S = {} \<Longrightarrow>
   \<forall>e\<in>set ys. \<not> looks_cancelled e \<and> \<not> bleeds e \<Longrightarrow> kept S ys = ys"
proof (induction ys arbitrary: S)
  case Nil
  then show ?case by simp
next
  case (Cons e es)
  from Cons.prems have "event_key ` set es \<inter> insert (event_key e) S = {}" by auto
  with Cons.prems have "kept (insert (event_key e) S) es = es"
    by (intro Cons.IH) simp_all
  with Cons.prems show ?case by auto
qed

lemma distinct_map_insort_key:
  "distinct (map f (insort_key k x xs)) = distinct (map f (x # xs))"
  by (induction xs) (auto simp: set_insort_key)

lemma distinct_map_sort_key: "distinct (map f (sort_key k xs)) = distinct (map f xs)"
  by (induction xs) (simp_all add: distinct_map_insort_key)

lemma validate_events_floorable:
  assumes "\<forall>e\<in>set evs. floorable e"
  shows "validate_events evs = Inr (sort_key canonical_key (kept {} evs))"
proof -
  from audit_loop_floorable[OF assms, of "\<lparr>seen = {}, last_day = None, last_time = None,
      issues = [], fixed_events = []\<rparr>"]
  obtain st where a: "audit_loop \<lparr>seen = {}, last_day = None, last_time = None,
      issues = [], fixed_events = []\<rparr> evs = Inr st" and f: "fixed_events st = kept {} evs"
    by auto
  have "\<forall>e\<in>set (kept {} evs). is_arrow (begin_local e)"
    using assms kept_subset[of "{}" evs] by (auto simp: floorable_def)
  then have "group_by_day [] (kept {} evs) = Inr (grouped (kept {} evs))"
    unfolding grouped_def by (rule group_by_day_arrow)
  with a f show ?thesis by (simp add: validate_events_def reorder_days_grouped)
qed

lemma validate_events_Inr:
  assumes "validate_events evs = Inr out"
  shows "(\<forall>e\<in>set evs. floorable e) \<and> out = sort_key canonical_key (kept {} evs)"
proof -
  from assms obtain st where "audit_loop \<lparr>seen = {}, last_day = None, last_time = None,
      issues = [], fixed_events = []\<rparr> evs = Inr st"
    by (auto simp: validate_events_def split: sum.splits)
  then have fl: "\<forall>e\<in>set evs. floorable e" by (rule audit_loop_Inr)
  from validate_events_floorable[OF fl] assms show ?thesis using fl by simp
qed

subsection \<open>Idempotence\<close>

text \<open>
  Claim C5. The event validator is idempotent: whenever it returns a list, applying it to
  that list returns the same list again, so no further duplicate, cancellation or all-day
  bleed is removed and the order is already the canonical one. (The validator returns a
  list exactly when every \<open>floor\<close> it calls succeeds, see \<open>validate_events_floorable\<close>
  and \<open>validate_events_Inr\<close>.)
\<close>

theorem validate_events_idempotent:
  assumes "validate_events evs = Inr out"
  shows "validate_events out = Inr out"
proof -
  from validate_events_Inr[OF assms] have fl: "\<forall>e\<in>set evs. floorable e"
    and out: "out = sort_key canonical_key (kept {} evs)" by simp_all
  have sub: "set out \<subseteq> set evs" using kept_subset[of "{}" evs] by (simp add: out)
  with fl have fl': "\<forall>e\<in>set out. floorable e" by auto
  have "distinct (map event_key out)" by (simp add: out distinct_map_sort_key kept_distinct)
  moreover have "\<forall>e\<in>set out. \<not> looks_cancelled e \<and> \<not> bleeds e"
    using kept_clean[of _ "{}" evs] by (simp add: out)
  ultimately have k: "kept {} out = out" by (intro kept_id) simp_all
  have "sorted (map canonical_key out)" by (simp add: out)
  then have "sort_key canonical_key out = out" by (rule sort_key_id_if_sorted)
  with validate_events_floorable[OF fl'] k show ?thesis by simp
qed

text \<open>
  A list with a duplicate, a cancelled event, a bleeding all-day event and two days out of
  order: four events are returned, and validating them again returns them unchanged.
\<close>

theorem validate_events_idempotent_witness:
  "validate_events
     [timed_event ''standup'' 90000 93600, timed_event ''lunch'' 40000 43600,
      timed_event ''Cancelled: review'' 50000 53600, all_day_event ''holiday'' 82800 82800,
      timed_event ''lunch'' 40000 43600, all_day_event ''trip'' 82800 342000,
      timed_event ''coffee'' 40000 41000] =
   Inr [timed_event ''coffee'' 40000 41000, timed_event ''lunch'' 40000 43600,
        all_day_event ''holiday'' 82800 82800, timed_event ''standup'' 90000 93600] \<and>
   validate_events
     [timed_event ''coffee'' 40000 41000, timed_event ''lunch'' 40000 43600,
      all_day_event ''holiday'' 82800 82800, timed_event ''standup'' 90000 93600] =
   Inr [timed_event ''coffee'' 40000 41000, timed_event ''lunch'' 40000 43600,
        all_day_event ''holiday'' 82800 82800, timed_event ''standup'' 90000 93600]"
proof -
  have v: "validate_events
     [timed_event ''standup'' 90000 93600, timed_event ''lunch'' 40000 43600,
      timed_event ''Cancelled: review'' 50000 53600, all_day_event ''holiday'' 82800 82800,
      timed_event ''lunch'' 40000 43600, all_day_event ''trip'' 82800 342000,
      timed_event ''coffee'' 40000 41000] =
   Inr [timed_event ''coffee'' 40000 41000, timed_event ''lunch'' 40000 43600,
        all_day_event ''holiday'' 82800 82800, timed_event ''standup'' 90000 93600]"
    by (simp add: validate_events_def audit_event_def bleed_check_def event_key_def
        timed_event_def all_day_event_def lower_def lower_char_def Let_def reorder_days_def
        day_block_def begin_summary_def)
  from validate_events_idempotent [OF v] v show ?thesis by simp
qed

subsection \<open>Canonical order\<close>

lemma validate_events_sorted:
  assumes "validate_events evs = Inr out"
  shows "sorted (map canonical_key out)"
  using validate_events_Inr[OF assms] by simp

text \<open>
  Claim C6. Whenever the validator returns a list, the start days along it are ascending,
  so the list is the concatenation of its days in ascending order; and for any two
  positions \<open>i < j\<close> of the same start day, an all-day event at \<open>j\<close> has an all-day event
  at \<open>i\<close> (within a day every all-day event precedes every timed event), and two events
  of the same bucket are in the order of \<open>(begin, summary)\<close>.
\<close>

theorem validate_events_canonical_order:
  assumes "validate_events evs = Inr out"
  shows "sorted (map start_day out) \<and>
         (\<forall>i j. i < j \<and> j < length out \<and> start_day (out ! i) = start_day (out ! j) \<longrightarrow>
            (all_day (out ! j) \<longrightarrow> all_day (out ! i)) \<and>
            (all_day (out ! i) = all_day (out ! j) \<longrightarrow>
               begin_summary (out ! i) \<le> begin_summary (out ! j)))"
proof -
  have s: "sorted (map canonical_key out)" by (rule validate_events_sorted[OF assms])
  have le: "canonical_key (out ! i) \<le> canonical_key (out ! j)" if "i < j" "j < length out" for i j
    using sorted_nth_mono[OF s, of i j] that by simp
  have "sorted (map start_day out)"
    unfolding sorted_iff_nth_mono
  proof (intro allI impI)
    fix i j assume ij: "i \<le> j" "j < length (map start_day out)"
    show "map start_day out ! i \<le> map start_day out ! j"
    proof (cases "i = j")
      case True
      then show ?thesis by simp
    next
      case False
      with ij le[of i j] show ?thesis by (auto simp: canonical_key_def)
    qed
  qed
  moreover have "(all_day (out ! j) \<longrightarrow> all_day (out ! i)) \<and>
            (all_day (out ! i) = all_day (out ! j) \<longrightarrow>
               begin_summary (out ! i) \<le> begin_summary (out ! j))"
    if "i < j" "j < length out" "start_day (out ! i) = start_day (out ! j)" for i j
    using le[OF that(1,2)] that(3) by (auto simp: canonical_key_def begin_summary_def)
  ultimately show ?thesis by blast
qed

text \<open>
  Two days given out of order, each with an all-day event after a timed one: the output is
  day by day, all-day first, and the order property holds of it.
\<close>

theorem validate_events_canonical_order_witness:
  "validate_events
     [timed_event ''b'' 100000 103600, all_day_event ''fair'' 82800 82800,
      timed_event ''a'' 100000 103600, timed_event ''early'' 3600 7200,
      all_day_event ''fast'' (- 3600) (- 3600)] =
   Inr [all_day_event ''fast'' (- 3600) (- 3600), timed_event ''early'' 3600 7200,
        all_day_event ''fair'' 82800 82800, timed_event ''a'' 100000 103600,
        timed_event ''b'' 100000 103600] \<and>
   map start_day
     [all_day_event ''fast'' (- 3600) (- 3600), timed_event ''early'' 3600 7200,
      all_day_event ''fair'' 82800 82800, timed_event ''a'' 100000 103600,
      timed_event ''b'' 100000 103600] = [- 3600, - 3600, 82800, 82800, 82800] \<and>
   sorted (map start_day
     [all_day_event ''fast'' (- 3600) (- 3600), timed_event ''early'' 3600 7200,
      all_day_event ''fair'' 82800 82800, timed_event ''a'' 100000 103600,
      timed_event ''b'' 100000 103600])"
proof -
  have v: "validate_events
     [timed_event ''b'' 100000 103600, all_day_event ''fair'' 82800 82800,
      timed_event ''a'' 100000 103600, timed_event ''early'' 3600 7200,
      all_day_event ''fast'' (- 3600) (- 3600)] =
   Inr [all_day_event ''fast'' (- 3600) (- 3600), timed_event ''early'' 3600 7200,
        all_day_event ''fair'' 82800 82800, timed_event ''a'' 100000 103600,
        timed_event ''b'' 100000 103600]"
    by (simp add: validate_events_def audit_event_def bleed_check_def event_key_def
        timed_event_def all_day_event_def lower_def lower_char_def Let_def reorder_days_def
        day_block_def begin_summary_def)
  have m: "map start_day
     [all_day_event ''fast'' (- 3600) (- 3600), timed_event ''early'' 3600 7200,
      all_day_event ''fair'' 82800 82800, timed_event ''a'' 100000 103600,
      timed_event ''b'' 100000 103600] = [- 3600, - 3600, 82800, 82800, 82800]"
    by (simp add: start_day_def timed_event_def all_day_event_def)
  from validate_events_canonical_order [OF v] v m show ?thesis by simp
qed

section \<open>The Time Normalizer: proofs\<close>

text \<open>
  Claim C7, as amended. A calendar date or a naive instant is returned unchanged, without
  raising, whatever the target zone identifier. An aware instant is returned without
  raising when the identifier is known to the zone database and either the value already
  carries that zone's \<open>tzinfo\<close> object, and is then returned unchanged, or its UTC reading
  and its reading in the target zone are both representable as a \<open>datetime\<close>, and is then
  returned as the same instant in the target zone. In the other cases an exception
  escapes: \<open>UnknownTimeZoneError\<close> for an unknown identifier, \<open>OverflowError\<close> when a
  reading is not representable.
\<close>

theorem convert_to_local_outcome:
  "(\<not> is_aware dt \<longrightarrow> convert_to_local zn same_tzinfo dt timezone_str = Inr dt) \<and>
   (dt = Some (AwareV u off) \<and> zn timezone_str = None \<longrightarrow>
      convert_to_local zn same_tzinfo dt timezone_str = Inl UnknownTimeZoneError) \<and>
   (dt = Some (AwareV u off) \<and> zn timezone_str = Some local_off \<and> same_tzinfo \<longrightarrow>
      convert_to_local zn same_tzinfo dt timezone_str = Inr dt) \<and>
   (dt = Some (AwareV u off) \<and> zn timezone_str = Some local_off \<and> \<not> same_tzinfo \<and>
    representable u \<and> representable (u + local_off) \<longrightarrow>
      convert_to_local zn same_tzinfo dt timezone_str = Inr (Some (AwareV u local_off))) \<and>
   (dt = Some (AwareV u off) \<and> zn timezone_str = Some local_off \<and> \<not> same_tzinfo \<and>
    \<not> (representable u \<and> representable (u + local_off)) \<longrightarrow>
      convert_to_local zn same_tzinfo dt timezone_str = Inl OverflowError)"
proof -
  have "\<not> is_aware dt \<longrightarrow> convert_to_local zn same_tzinfo dt timezone_str = Inr dt"
  proof (cases dt)
    case None
    then show ?thesis by (simp add: convert_to_local_def)
  next
    case (Some v)
    then show ?thesis by (cases v) (simp_all add: convert_to_local_def)
  qed
  then show ?thesis by (auto simp: convert_to_local_def)
qed

text \<open>
  One input for each line of the amended claim: a date, an aware instant taken from UTC to
  Europe/Berlin, the same instant when it already carries the target zone's object, an
  unknown identifier, and 23:30 UTC on the last day of year 9999 taken to Europe/Berlin.
\<close>

theorem convert_to_local_outcome_witness:
  "convert_to_local sample_zones False (Some (DateV 19000)) ''Nowhere/At_All'' =
     Inr (Some (DateV 19000)) \<and>
   convert_to_local sample_zones False (Some (AwareV 1700000000 0)) ''Europe/Berlin'' =
     Inr (Some (AwareV 1700000000 3600)) \<and>
   convert_to_local sample_zones True (Some (AwareV 1700000000 3600)) ''Europe/Berlin'' =
     Inr (Some (AwareV 1700000000 3600)) \<and>
   convert_to_local sample_zones False (Some (AwareV 1700000000 0)) ''Atlantis/Central'' =
     Inl UnknownTimeZoneError \<and>
   convert_to_local sample_zones False (Some (AwareV 253402299000 0)) ''Europe/Berlin'' =
     Inl OverflowError"
  using
    convert_to_local_outcome [of "Some (DateV 19000)" sample_zones False "''Nowhere/At_All''"]
    convert_to_local_outcome [of "Some (AwareV 1700000000 0)" sample_zones False
      "''Europe/Berlin''" 1700000000 0 3600]
    convert_to_local_outcome [of "Some (AwareV 1700000000 3600)" sample_zones True
      "''Europe/Berlin''" 1700000000 3600 3600]
    convert_to_local_outcome [of "Some (AwareV 1700000000 0)" sample_zones False
      "''Atlantis/Central''" 1700000000 0]
    convert_to_local_outcome [of "Some (AwareV 253402299000 0)" sample_zones False
      "''Europe/Berlin''" 253402299000 0 3600]
  by (simp add: sample_zones_def representable_def datetime_min_def datetime_max_def)

text \<open>
  The claim as written, never an exception, fails on an aware instant with an identifier
  that the database does not know, and with a known identifier on an aware instant whose
  local reading lies past \<^verbatim>\<open>datetime.max\<close>.
\<close>

theorem convert_to_local_raises_counterexample:
  "convert_to_local sample_zones False (Some (AwareV 1700000000 0)) ''Mars/Olympus'' =
     Inl UnknownTimeZoneError \<and>
   convert_to_local sample_zones False (Some (AwareV 253402300000 0)) ''Europe/Berlin'' =
     Inl OverflowError"
  by (simp add: sample_zones_def convert_to_local_def representable_def datetime_min_def
      datetime_max_def)

section \<open>Recurrence resolution: proofs\<close>

subsection \<open>Pass 1\<close>

lemma verdict_by_text:
  assumes "mentions_cancelled c" and "cancellation_verdict c = Inr b"
  shows "b"
  using assms
  by (auto simp: cancellation_verdict_def mentions_cancelled_def Let_def split: sum.splits)

lemma classify_component_cancelled:
  assumes "classify_component st c = Inr st1"
  shows "cancelled_keys st \<subseteq> cancelled_keys st1"
    and "cancellation_verdict c = Inr True \<Longrightarrow> component_key c \<in> cancelled_keys st1"
    and "cancellation_verdict c = Inr True \<or> cancellation_verdict c = Inr False"
    and "set (master_events st1) \<subseteq>
           set (master_events st) \<union> {c. cancellation_verdict c = Inr False}"
    and "overrides st1 k = Some x \<Longrightarrow>
           overrides st k = Some x \<or>
           (x = c \<and> cancellation_verdict c = Inr False \<and> component_key c = k \<and>
            RECURRENCE_ID c \<noteq> None)"
  using assms
  by (auto simp: classify_component_def split: sum.splits if_splits)

lemma classify_all_invariant:
  assumes "classify_all st0 comps = Inr st"
  shows "cancelled_keys st0 \<subseteq> cancelled_keys st"
    and "\<forall>c\<in>set comps. cancellation_verdict c = Inr True \<longrightarrow> component_key c \<in> cancelled_keys st"
    and "\<forall>c\<in>set comps. cancellation_verdict c = Inr True \<or> cancellation_verdict c = Inr False"
    and "set (master_events st) \<subseteq>
           set (master_events st0) \<union> {c. cancellation_verdict c = Inr False}"
    and "\<forall>k x. overrides st k = Some x \<longrightarrow>
           overrides st0 k = Some x \<or>
           (x \<in> set comps \<and> cancellation_verdict x = Inr False \<and> component_key x = k \<and>
            RECURRENCE_ID x \<noteq> None)"
  using assms
proof (induction comps arbitrary: st0)
  case Nil
  {
    case 1 then show ?case by simp
  next
    case 2 then show ?case by simp
  next
    case 3 then show ?case by simp
  next
    case 4 then show ?case by simp
  next
    case 5 then show ?case by simp
  }
next
  case (Cons c cs)
  {
    case 1
    then obtain st1 where s1: "classify_component st0 c = Inr st1"
      and r: "classify_all st1 cs = Inr st" by (auto split: sum.splits)
    from classify_component_cancelled(1)[OF s1] Cons.IH(1)[OF r] show ?case by blast
  next
    case 2
    then obtain st1 where s1: "classify_component st0 c = Inr st1"
      and r: "classify_all st1 cs = Inr st" by (auto split: sum.splits)
    from classify_component_cancelled(2)[OF s1] Cons.IH(1)[OF r] Cons.IH(2)[OF r]
    show ?case by auto
  next
    case 3
    then obtain st1 where s1: "classify_component st0 c = Inr st1"
      and r: "classify_all st1 cs = Inr st" by (auto split: sum.splits)
    from classify_component_cancelled(3)[OF s1] Cons.IH(3)[OF r] show ?case by auto
  next
    case 4
    then obtain st1 where s1: "classify_component st0 c = Inr st1"
      and r: "classify_all st1 cs = Inr st" by (auto split: sum.splits)
    from classify_component_cancelled(4)[OF s1] Cons.IH(4)[OF r] show ?case by blast
  next
    case 5
    then obtain st1 where s1: "classify_component st0 c = Inr st1"
      and r: "classify_all st1 cs = Inr st" by (auto split: sum.splits)
    show ?case
    proof (intro allI impI)
      fix k x assume "overrides st k = Some x"
      with Cons.IH(5)[OF r] have "overrides st1 k = Some x \<or>
           (x \<in> set cs \<and> cancellation_verdict x = Inr False \<and> component_key x = k \<and>
            RECURRENCE_ID x \<noteq> None)" by blast
      with classify_component_cancelled(5)[OF s1, of k x]
      show "overrides st0 k = Some x \<or>
           (x \<in> set (c # cs) \<and> cancellation_verdict x = Inr False \<and> component_key x = k \<and>
            RECURRENCE_ID x \<noteq> None)" by auto
    qed
  }
qed

text \<open>
  Claim C8, as amended. When Pass 1 runs to its end, every VEVENT component whose summary
  or description contains \<open>cancelled\<close> or \<open>canceled\<close>, matched case-insensitively, has a
  true cancellation verdict, its key is in the cancelled set, and the component is neither
  among the masters nor among the overrides.
\<close>

theorem pass1_cancelled_by_text:
  assumes "classify_all pass1_start comps = Inr st" and "c \<in> set comps"
    and "mentions_cancelled c"
  shows "cancellation_verdict c = Inr True \<and> component_key c \<in> cancelled_keys st \<and>
         c \<notin> set (master_events st) \<and> c \<notin> ran (overrides st)"
proof -
  from classify_all_invariant(3)[OF assms(1)] assms(2)
  have "cancellation_verdict c = Inr True \<or> cancellation_verdict c = Inr False" by blast
  with verdict_by_text[OF assms(3)] have v: "cancellation_verdict c = Inr True" by auto
  with classify_all_invariant(2)[OF assms(1)] assms(2)
  have k: "component_key c \<in> cancelled_keys st" by blast
  from classify_all_invariant(4)[OF assms(1)] v have m: "c \<notin> set (master_events st)"
    by (auto simp: pass1_start_def)
  have "c \<notin> ran (overrides st)"
  proof
    assume "c \<in> ran (overrides st)"
    then obtain kk where o: "overrides st kk = Some c" by (auto simp: ran_def)
    from classify_all_invariant(5)[OF assms(1)] o
    have "overrides pass1_start kk = Some c \<or> cancellation_verdict c = Inr False" by blast
    with v show False by (simp add: pass1_start_def)
  qed
  with v k m show ?thesis by blast
qed

text \<open>
  A calendar of a standup whose summary says CANCELLED and a lunch: the standup's key is
  the one cancelled key and the lunch is the one master.
\<close>

theorem pass1_cancelled_by_text_witness:
  "classify_all pass1_start
     [empty_vevent\<lparr>UID := Some ''s1'', SUMMARY := Some ''Standup CANCELLED'',
        DTSTART := Some (NaiveV 8700000)\<rparr>,
      empty_vevent\<lparr>UID := Some ''l1'', SUMMARY := Some ''Lunch'',
        DTSTART := Some (NaiveV 8690000)\<rparr>] =
   Inr \<lparr>master_events = [empty_vevent\<lparr>UID := Some ''l1'', SUMMARY := Some ''Lunch'',
          DTSTART := Some (NaiveV 8690000)\<rparr>],
        overrides = Map.empty, cancelled_keys = {(''s1'', None)}\<rparr> \<and>
   mentions_cancelled (empty_vevent\<lparr>UID := Some ''s1'', SUMMARY := Some ''Standup CANCELLED'',
        DTSTART := Some (NaiveV 8700000)\<rparr>) \<and>
   cancellation_verdict (empty_vevent\<lparr>UID := Some ''s1'', SUMMARY := Some ''Standup CANCELLED'',
        DTSTART := Some (NaiveV 8700000)\<rparr>) = Inr True \<and>
   component_key (empty_vevent\<lparr>UID := Some ''s1'', SUMMARY := Some ''Standup CANCELLED'',
        DTSTART := Some (NaiveV 8700000)\<rparr>) = (''s1'', None)"
proof -
  have p: "classify_all pass1_start
     [empty_vevent\<lparr>UID := Some ''s1'', SUMMARY := Some ''Standup CANCELLED'',
        DTSTART := Some (NaiveV 8700000)\<rparr>,
      empty_vevent\<lparr>UID := Some ''l1'', SUMMARY := Some ''Lunch'',
        DTSTART := Some (NaiveV 8690000)\<rparr>] =
   Inr \<lparr>master_events = [empty_vevent\<lparr>UID := Some ''l1'', SUMMARY := Some ''Lunch'',
          DTSTART := Some (NaiveV 8690000)\<rparr>],
        overrides = Map.empty, cancelled_keys = {(''s1'', None)}\<rparr>"
    by (simp add: cancellation_verdict_def classify_component_def component_key_def
        multi_day_unnamed_def pass1_start_def empty_vevent_def text_of_def lower_def
        lower_char_def upper_def upper_char_def Let_def)
  have m: "mentions_cancelled (empty_vevent\<lparr>UID := Some ''s1'',
        SUMMARY := Some ''Standup CANCELLED'', DTSTART := Some (NaiveV 8700000)\<rparr>)"
    by (simp add: mentions_cancelled_def empty_vevent_def text_of_def lower_def lower_char_def)
  have i: "empty_vevent\<lparr>UID := Some ''s1'', SUMMARY := Some ''Standup CANCELLED'',
        DTSTART := Some (NaiveV 8700000)\<rparr> \<in> set
     [empty_vevent\<lparr>UID := Some ''s1'', SUMMARY := Some ''Standup CANCELLED'',
        DTSTART := Some (NaiveV 8700000)\<rparr>,
      empty_vevent\<lparr>UID := Some ''l1'', SUMMARY := Some ''Lunch'',
        DTSTART := Some (NaiveV 8690000)\<rparr>]" by simp
  have k: "component_key (empty_vevent\<lparr>UID := Some ''s1'',
        SUMMARY := Some ''Standup CANCELLED'', DTSTART := Some (NaiveV 8700000)\<rparr>) = (''s1'', None)"
    by (simp add: component_key_def empty_vevent_def text_of_def)
  from pass1_cancelled_by_text [OF p i m] p m k show ?thesis by simp
qed

text \<open>
  The claim as written, on the substring \<open>cancel\<close>, fails on a component titled
  ``Post-cancellation review'': its text contains \<open>cancel\<close>, its verdict is false and it
  is bucketed as a master.
\<close>

theorem pass1_cancel_substring_counterexample:
  "mentions_cancel (empty_vevent\<lparr>UID := Some ''r1'', SUMMARY := Some ''Post-cancellation review'',
     DTSTART := Some (NaiveV 8700000)\<rparr>) \<and>
   cancellation_verdict (empty_vevent\<lparr>UID := Some ''r1'', SUMMARY := Some ''Post-cancellation review'',
     DTSTART := Some (NaiveV 8700000)\<rparr>) = Inr False \<and>
   classify_all pass1_start [empty_vevent\<lparr>UID := Some ''r1'',
     SUMMARY := Some ''Post-cancellation review'', DTSTART := Some (NaiveV 8700000)\<rparr>] =
   Inr \<lparr>master_events = [empty_vevent\<lparr>UID := Some ''r1'',
          SUMMARY := Some ''Post-cancellation review'', DTSTART := Some (NaiveV 8700000)\<rparr>],
        overrides = Map.empty, cancelled_keys = {}\<rparr>"
  by (simp add: mentions_cancel_def cancellation_verdict_def classify_component_def
      multi_day_unnamed_def pass1_start_def empty_vevent_def text_of_def lower_def
      lower_char_def upper_def upper_char_def Let_def)

subsection \<open>Pass 2\<close>













end
